theory Spec2Isabelle
  imports Main "HOL-Library.Word"
begin

section \<open>Characters, pointers and memory\<close>

text \<open>
  The program (\<^verbatim>\<open>strlen.cpp\<close>, \<^verbatim>\<open>t_strlen.cpp\<close>) measures a null-terminated
  character sequence through the class \<^verbatim>\<open>String_Literal\<close>. A \<^verbatim>\<open>char\<close> is an 8-bit
  word, a \<^verbatim>\<open>const char*\<close> and a \<^verbatim>\<open>size_t\<close> are 64-bit words (an LP64 target), and
  \<^verbatim>\<open>nullptr\<close> is the address 0. Character storage is a partial map from addresses
  to characters: an address outside its domain belongs to no object, and reading it is
  undefined behaviour in C++, which the model makes explicit as the failure
  \<open>Invalid_Read\<close>.
\<close>

type_synonym char_t = "8 word"
type_synonym char_ptr = "64 word"
type_synonym size_t = "64 word"
type_synonym memory = "char_ptr \<rightharpoonup> char_t"

definition nullptr :: char_ptr where
  "nullptr = 0"

text \<open>
  Modelled from the spec: the failure conditions. The headers \<^verbatim>\<open>string-literal.h\<close>
  and \<^verbatim>\<open>solid/require.h\<close> are not among the sources. The spec names one error kind,
  \<open>NullReference\<close>, raised by the constructor, and describes the test harness's
  \<^verbatim>\<open>require\<close> as a generic "require true or abort/report" primitive, here \<open>Abort\<close>.
  \<open>Invalid_Read\<close> is not raised by the program: it marks a read outside the
  character storage.
\<close>

datatype failure = NullReference | Abort | Invalid_Read char_ptr

section \<open>The String Literal view\<close>

text \<open>
  Modelled from the spec: the class \<^verbatim>\<open>String_Literal\<close> of \<^verbatim>\<open>string-literal.h\<close>,
  which is not among the sources. Its one attribute is the reference to the current
  character, read by \<^verbatim>\<open>ptr()\<close>.
\<close>

record String_Literal =
  ptr :: char_ptr

text \<open>
  Modelled from the spec: the constructor \<^verbatim>\<open>String_Literal { p }\<close>. A null reference
  fails with \<open>NullReference\<close> before any view is produced; a non-null reference is
  wrapped, and no other validation is performed.
\<close>

definition String_Literal :: "char_ptr \<Rightarrow> failure + String_Literal" where
  "String_Literal p = (if p = nullptr then Inl NullReference else Inr \<lparr>ptr = p\<rparr>)"

text \<open>
  Modelled from the spec: dereference (\<^verbatim>\<open>operator*\<close>) returns the character
  currently referenced.
\<close>

definition deref :: "memory \<Rightarrow> String_Literal \<Rightarrow> failure + char_t" where
  "deref m s = (case m (ptr s) of None \<Rightarrow> Inl (Invalid_Read (ptr s)) | Some c \<Rightarrow> Inr c)"

text \<open>
  Modelled from the spec: advance (\<^verbatim>\<open>operator++\<close>) moves the view's reference to the
  next character, with no bounds checking.
\<close>

definition advance :: "String_Literal \<Rightarrow> String_Literal" where
  "advance s = s\<lparr>ptr := ptr s + 1\<rparr>"

text \<open>
  Modelled from the spec: the "is terminator" check is true when the currently
  referenced character equals the terminator value zero.
\<close>

definition is_terminator :: "memory \<Rightarrow> String_Literal \<Rightarrow> bool" where
  "is_terminator m s = (deref m s = Inr 0)"

section \<open>The length function\<close>

text \<open>
  \<^verbatim>\<open>size_t strlen(const String_Literal& str)\<close> works on three things: the character
  storage, the caller's view \<open>str\<close>, bound by reference, and the local cursor
  \<open>cur\<close>. They form the state the loop is run on, so that whatever the loop did to the
  caller's view or to the storage would show in the final state.
\<close>

record strlen_frame =
  mem :: memory
  str :: String_Literal
  cur :: String_Literal

text \<open>
  \<^verbatim>\<open>for (; *cur; ++cur) { }\<close>: while the character under the cursor is not zero, advance
  the cursor. The source has no other exit and no bound, so the loop is a partial function:
  \<open>None\<close> is a scan that never returns. A read outside the storage ends the scan with
  \<open>Invalid_Read\<close>.
\<close>

partial_function (option) strlen_loop :: "strlen_frame \<Rightarrow> (failure + strlen_frame) option" where
  "strlen_loop f =
     (case deref (mem f) (cur f) of
        Inl e \<Rightarrow> Some (Inl e)
      | Inr c \<Rightarrow> if c \<noteq> 0 then strlen_loop (f\<lparr>cur := advance (cur f)\<rparr>) else Some (Inr f))"

declare strlen_loop.simps [code]

text \<open>
  \<^verbatim>\<open>auto cur { str };\<close> copies the caller's view into the cursor, then the loop runs.
  \<open>strlen_run\<close> gives the state in which the loop ends.
\<close>

definition strlen_run :: "memory \<Rightarrow> String_Literal \<Rightarrow> (failure + strlen_frame) option" where
  "strlen_run m s = strlen_loop \<lparr>mem = m, str = s, cur = s\<rparr>"

text \<open>
  \<^verbatim>\<open>return cur.ptr() - str.ptr();\<close> the pointer difference, converted to \<^verbatim>\<open>size_t\<close>.
\<close>

definition strlen :: "memory \<Rightarrow> String_Literal \<Rightarrow> (failure + size_t) option" where
  "strlen m s =
     (case strlen_run m s of
        None \<Rightarrow> None
      | Some (Inl e) \<Rightarrow> Some (Inl e)
      | Some (Inr f) \<Rightarrow> Some (Inr (ptr (cur f) - ptr (str f))))"

text \<open>
  The same loop with a budget of iterations: \<open>strlen_loop_n n\<close> executes the increment
  \<^verbatim>\<open>++cur\<close> at most \<open>n\<close> times and gives \<open>None\<close> when that is not enough to leave
  the loop. It serves to count iterations.
\<close>

primrec strlen_loop_n :: "nat \<Rightarrow> strlen_frame \<Rightarrow> (failure + strlen_frame) option" where
  "strlen_loop_n 0 f =
     (case deref (mem f) (cur f) of
        Inl e \<Rightarrow> Some (Inl e)
      | Inr c \<Rightarrow> if c \<noteq> 0 then None else Some (Inr f))"
| "strlen_loop_n (Suc n) f =
     (case deref (mem f) (cur f) of
        Inl e \<Rightarrow> Some (Inl e)
      | Inr c \<Rightarrow> if c \<noteq> 0 then strlen_loop_n n (f\<lparr>cur := advance (cur f)\<rparr>) else Some (Inr f))"

text \<open>
  \<open>terminator_at m s k\<close>: from the view's position, exactly \<open>k\<close> advance operations
  reach the first position where "is terminator" is true, every character before it
  being readable.
\<close>

primrec terminator_at :: "memory \<Rightarrow> String_Literal \<Rightarrow> nat \<Rightarrow> bool" where
  "terminator_at m s 0 = is_terminator m s"
| "terminator_at m s (Suc k) =
     (case deref m s of
        Inl e \<Rightarrow> False
      | Inr c \<Rightarrow> c \<noteq> 0 \<and> terminator_at m (advance s) k)"

section \<open>The test program\<close>

text \<open>
  Modelled from the spec: \<^verbatim>\<open>require\<close> of \<^verbatim>\<open>solid/require.h\<close>, which is not among the
  sources: the harness's generic "require true or abort/report" primitive.
\<close>

definition require :: "bool \<Rightarrow> failure + unit" where
  "require b = (if b then Inr () else Inl Abort)"

text \<open>
  Modelled from the spec: which failures the handler
  \<^verbatim>\<open>catch (const solid::require::Error&)\<close> catches. \<open>NullReference\<close> is "a
  required-precondition violation", catchable by the caller; an abort and a read
  outside the storage are not exceptions.
\<close>

primrec is_require_Error :: "failure \<Rightarrow> bool" where
  "is_require_Error NullReference = True"
| "is_require_Error Abort = False"
| "is_require_Error (Invalid_Read a) = False"

text \<open>The expression \<^verbatim>\<open>strlen(String_Literal { p })\<close> of the tests.\<close>

definition strlen_of :: "memory \<Rightarrow> char_ptr \<Rightarrow> (failure + size_t) option" where
  "strlen_of m p =
     (case String_Literal p of
        Inl e \<Rightarrow> Some (Inl e)
      | Inr s \<Rightarrow> strlen m s)"

text \<open>
  \<^verbatim>\<open>test_null_strlen\<close>: the try block evaluates \<^verbatim>\<open>strlen(String_Literal { nullptr })\<close>,
  the handler sets \<^verbatim>\<open>got_exception\<close>, and the test requires it. A failure the handler
  does not catch leaves the test.
\<close>

definition test_null_strlen :: "memory \<Rightarrow> (failure + unit) option" where
  "test_null_strlen m =
     (let got_exception = False in
      case strlen_of m nullptr of
        None \<Rightarrow> None
      | Some (Inl e) \<Rightarrow>
          if is_require_Error e then (let got_exception = True in Some (require got_exception))
          else Some (Inl e)
      | Some (Inr n) \<Rightarrow> Some (require got_exception))"

section \<open>Properties of the scan\<close>

lemma strlen_loop_stop:
  "deref (mem f) (cur f) = Inr 0 \<Longrightarrow> strlen_loop f = Some (Inr f)"
  by (subst strlen_loop.simps) simp

lemma strlen_loop_step:
  "deref (mem f) (cur f) = Inr c \<Longrightarrow> c \<noteq> 0 \<Longrightarrow>
   strlen_loop f = strlen_loop (f\<lparr>cur := advance (cur f)\<rparr>)"
  by (subst strlen_loop.simps) simp

lemma strlen_loop_fail:
  "deref (mem f) (cur f) = Inl e \<Longrightarrow> strlen_loop f = Some (Inl e)"
  by (subst strlen_loop.simps) simp

lemma ptr_advance: "ptr (advance s) = ptr s + 1"
  by (simp add: advance_def)

lemma ptr_funpow_advance: "ptr ((advance ^^ k) s) = ptr s + of_nat k"
  by (induction k) (simp_all add: ptr_advance)

lemma deref_Inr_iff: "deref m s = Inr c \<longleftrightarrow> m (ptr s) = Some c"
  by (simp add: deref_def split: option.splits)

lemma is_terminator_iff: "is_terminator m s \<longleftrightarrow> m (ptr s) = Some 0"
  by (simp add: is_terminator_def deref_Inr_iff)

subsection \<open>The budgeted loop and the loop agree\<close>

lemma strlen_loop_n_sound:
  "strlen_loop_n n f = Some r \<Longrightarrow> strlen_loop f = Some r"
proof (induction n arbitrary: f)
  case 0
  then show ?case
    by (subst strlen_loop.simps) (auto split: sum.splits if_splits)
next
  case (Suc n)
  show ?case
  proof (cases "deref (mem f) (cur f)")
    case (Inl e)
    then show ?thesis using Suc.prems by (simp add: strlen_loop_fail)
  next
    case (Inr c)
    show ?thesis
    proof (cases "c = 0")
      case True
      then show ?thesis using Inr Suc.prems by (simp add: strlen_loop_stop)
    next
      case False
      then have "strlen_loop_n n (f\<lparr>cur := advance (cur f)\<rparr>) = Some r"
        using Inr Suc.prems by simp
      then have "strlen_loop (f\<lparr>cur := advance (cur f)\<rparr>) = Some r" by (rule Suc.IH)
      then show ?thesis using strlen_loop_step [OF Inr False] by simp
    qed
  qed
qed

lemma strlen_loop_n_complete:
  assumes "strlen_loop f = Some r"
  shows "\<exists>n. strlen_loop_n n f = Some r"
proof (rule strlen_loop.raw_induct [where P = "\<lambda>f r. \<exists>n. strlen_loop_n n f = Some r", OF _ assms])
  fix loop :: "strlen_frame \<Rightarrow> (failure + strlen_frame) option" and f r
  assume IH: "\<And>f r. loop f = Some r \<Longrightarrow> \<exists>n. strlen_loop_n n f = Some r"
    and body: "(case deref (mem f) (cur f) of
                  Inl e \<Rightarrow> Some (Inl e)
                | Inr c \<Rightarrow> if c \<noteq> 0 then loop (f\<lparr>cur := advance (cur f)\<rparr>) else Some (Inr f)) = Some r"
  show "\<exists>n. strlen_loop_n n f = Some r"
  proof (cases "deref (mem f) (cur f)")
    case (Inl e)
    then have "strlen_loop_n 0 f = Some r" using body by simp
    then show ?thesis ..
  next
    case (Inr c)
    show ?thesis
    proof (cases "c = 0")
      case True
      then have "strlen_loop_n 0 f = Some r" using Inr body by simp
      then show ?thesis ..
    next
      case False
      then have "loop (f\<lparr>cur := advance (cur f)\<rparr>) = Some r" using Inr body by simp
      then obtain n where "strlen_loop_n n (f\<lparr>cur := advance (cur f)\<rparr>) = Some r"
        using IH by blast
      then have "strlen_loop_n (Suc n) f = Some r" using Inr False by simp
      then show ?thesis ..
    qed
  qed
qed

text \<open>What a finished scan leaves: storage and caller's view as they were, the cursor on a terminator.\<close>

lemma strlen_loop_n_frame:
  "strlen_loop_n n f = Some (Inr g) \<Longrightarrow>
   mem g = mem f \<and> str g = str f \<and> deref (mem g) (cur g) = Inr 0"
proof (induction n arbitrary: f)
  case 0
  then show ?case by (auto split: sum.splits if_splits)
next
  case (Suc n)
  show ?case
  proof (cases "deref (mem f) (cur f)")
    case (Inl e)
    then show ?thesis using Suc.prems by simp
  next
    case (Inr c)
    show ?thesis
    proof (cases "c = 0")
      case True
      then show ?thesis using Inr Suc.prems by auto
    next
      case False
      then have "strlen_loop_n n (f\<lparr>cur := advance (cur f)\<rparr>) = Some (Inr g)"
        using Inr Suc.prems by simp
      from Suc.IH [OF this] show ?thesis by auto
    qed
  qed
qed

lemma strlen_loop_frame:
  assumes "strlen_loop f = Some (Inr g)"
  shows "mem g = mem f \<and> str g = str f \<and> deref (mem g) (cur g) = Inr 0"
proof -
  from assms obtain n where "strlen_loop_n n f = Some (Inr g)"
    using strlen_loop_n_complete by blast
  then show ?thesis by (rule strlen_loop_n_frame)
qed

text \<open>The only failure of a scan is a read outside the storage.\<close>

lemma strlen_loop_n_failure:
  "strlen_loop_n n f = Some (Inl e) \<Longrightarrow> \<exists>a. e = Invalid_Read a"
proof (induction n arbitrary: f)
  case 0
  then show ?case by (auto simp: deref_def split: option.splits if_splits)
next
  case (Suc n)
  show ?case
  proof (cases "deref (mem f) (cur f)")
    case (Inl e')
    then show ?thesis using Suc.prems by (auto simp: deref_def split: option.splits)
  next
    case (Inr c)
    then show ?thesis using Suc by (cases "c = 0") auto
  qed
qed

lemma strlen_not_NullReference: "strlen m s \<noteq> Some (Inl NullReference)"
proof
  assume "strlen m s = Some (Inl NullReference)"
  then have "strlen_loop \<lparr>mem = m, str = s, cur = s\<rparr> = Some (Inl NullReference)"
    by (auto simp: strlen_def strlen_run_def split: option.splits sum.splits)
  then obtain n where "strlen_loop_n n \<lparr>mem = m, str = s, cur = s\<rparr> = Some (Inl NullReference)"
    using strlen_loop_n_complete by blast
  then show False using strlen_loop_n_failure by blast
qed

text \<open>The caller's view plays no part in the scan: replacing it changes that field only.\<close>

lemma strlen_loop_n_str:
  "strlen_loop_n n (f\<lparr>str := t\<rparr>) =
   map_option (map_sum (\<lambda>e. e) (\<lambda>g. g\<lparr>str := t\<rparr>)) (strlen_loop_n n f)"
proof (induction n arbitrary: f)
  case 0
  show ?case by (cases "deref (mem f) (cur f)") simp_all
next
  case (Suc n)
  show ?case
  proof (cases "deref (mem f) (cur f)")
    case (Inl e)
    then show ?thesis by simp
  next
    case (Inr c)
    have swap: "f\<lparr>str := t, cur := advance (cur f)\<rparr> = f\<lparr>cur := advance (cur f), str := t\<rparr>"
      by (cases f) simp
    have "strlen_loop_n n (f\<lparr>str := t, cur := advance (cur f)\<rparr>) =
          map_option (map_sum (\<lambda>e. e) (\<lambda>g. g\<lparr>str := t\<rparr>)) (strlen_loop_n n (f\<lparr>cur := advance (cur f)\<rparr>))"
      unfolding swap by (rule Suc.IH)
    then show ?thesis using Inr by simp
  qed
qed

lemma strlen_loop_str:
  "strlen_loop (f\<lparr>str := t\<rparr>) = map_option (map_sum (\<lambda>e. e) (\<lambda>g. g\<lparr>str := t\<rparr>)) (strlen_loop f)"
proof (cases "strlen_loop f")
  case None
  have "strlen_loop (f\<lparr>str := t\<rparr>) = None"
  proof (rule ccontr)
    assume "strlen_loop (f\<lparr>str := t\<rparr>) \<noteq> None"
    then obtain r where "strlen_loop (f\<lparr>str := t\<rparr>) = Some r" by blast
    then obtain n where "strlen_loop_n n (f\<lparr>str := t\<rparr>) = Some r"
      using strlen_loop_n_complete by blast
    then obtain r' where "strlen_loop_n n f = Some r'"
      by (auto simp: strlen_loop_n_str)
    then have "strlen_loop f = Some r'" by (rule strlen_loop_n_sound)
    then show False using None by simp
  qed
  then show ?thesis using None by simp
next
  case (Some r)
  then obtain n where n: "strlen_loop_n n f = Some r"
    using strlen_loop_n_complete by blast
  have "strlen_loop_n n (f\<lparr>str := t\<rparr>) = Some (map_sum (\<lambda>e. e) (\<lambda>g. g\<lparr>str := t\<rparr>) r)"
    by (simp add: strlen_loop_n_str n)
  then have "strlen_loop (f\<lparr>str := t\<rparr>) = Some (map_sum (\<lambda>e. e) (\<lambda>g. g\<lparr>str := t\<rparr>) r)"
    by (rule strlen_loop_n_sound)
  then show ?thesis using Some by simp
qed

subsection \<open>Position of the first terminator\<close>

text \<open>
  \<open>terminator_at\<close> by addresses: the \<open>k\<close> characters from the view's position are
  stored and not zero, and the next one is zero.
\<close>

lemma terminator_at_iff:
  "terminator_at m s k \<longleftrightarrow>
     (\<forall>i<k. \<exists>c. m (ptr s + of_nat i) = Some c \<and> c \<noteq> 0) \<and> m (ptr s + of_nat k) = Some 0"
proof (induction k arbitrary: s)
  case 0
  show ?case by (simp add: is_terminator_def deref_Inr_iff)
next
  case (Suc k)
  have shift: "ptr (advance s) + of_nat i = ptr s + of_nat (Suc i)" for i
    by (simp add: ptr_advance)
  show ?case
  proof
    assume a: "terminator_at m s (Suc k)"
    then obtain c where c: "m (ptr s) = Some c" "c \<noteq> 0" and t: "terminator_at m (advance s) k"
      by (auto simp: deref_Inr_iff split: sum.splits)
    from t Suc.IH have ih: "\<forall>i<k. \<exists>c. m (ptr (advance s) + of_nat i) = Some c \<and> c \<noteq> 0"
      and z: "m (ptr (advance s) + of_nat k) = Some 0" by auto
    have "\<exists>c. m (ptr s + of_nat i) = Some c \<and> c \<noteq> 0" if "i < Suc k" for i
    proof (cases i)
      case 0 then show ?thesis using c by simp
    next
      case (Suc j)
      then have "j < k" using that by simp
      then have "\<exists>c. m (ptr (advance s) + of_nat j) = Some c \<and> c \<noteq> 0" using ih by blast
      then show ?thesis unfolding shift Suc .
    qed
    moreover have "m (ptr s + of_nat (Suc k)) = Some 0" using z unfolding shift .
    ultimately show "(\<forall>i<Suc k. \<exists>c. m (ptr s + of_nat i) = Some c \<and> c \<noteq> 0) \<and> m (ptr s + of_nat (Suc k)) = Some 0"
      by blast
  next
    assume a: "(\<forall>i<Suc k. \<exists>c. m (ptr s + of_nat i) = Some c \<and> c \<noteq> 0) \<and> m (ptr s + of_nat (Suc k)) = Some 0"
    then obtain c where c: "m (ptr s) = Some c" "c \<noteq> 0" by force
    have "\<exists>c. m (ptr (advance s) + of_nat i) = Some c \<and> c \<noteq> 0" if "i < k" for i
    proof -
      have "Suc i < Suc k" using that by simp
      then have "\<exists>c. m (ptr s + of_nat (Suc i)) = Some c \<and> c \<noteq> 0" using a by blast
      then show ?thesis unfolding shift .
    qed
    moreover have "m (ptr (advance s) + of_nat k) = Some 0" using a unfolding shift by blast
    ultimately have "terminator_at m (advance s) k" using Suc.IH by blast
    then show "terminator_at m s (Suc k)" using c by (simp add: deref_Inr_iff[THEN iffD2])
  qed
qed

lemma terminator_at_funpow:
  assumes "terminator_at m s k"
  shows "is_terminator m ((advance ^^ k) s) \<and> (\<forall>i<k. \<not> is_terminator m ((advance ^^ i) s))"
  using assms unfolding terminator_at_iff is_terminator_iff ptr_funpow_advance by auto

lemma terminator_at_unique:
  assumes "terminator_at m s k" and "terminator_at m s j"
  shows "j = k"
proof (rule ccontr)
  assume "j \<noteq> k"
  then consider "j < k" | "k < j" by linarith
  then show False
    using assms unfolding terminator_at_iff by cases auto
qed

lemma terminator_at_bound:
  assumes "terminator_at m s k"
  shows "k < 2 ^ 64"
proof (rule ccontr)
  assume "\<not> k < 2 ^ 64"
  then have k: "(2::nat) ^ 64 \<le> k" by simp
  let ?i = "k - 2 ^ 64"
  have "?i < k" using k by simp
  moreover have "(of_nat ?i :: 64 word) = of_nat k"
    using k by (simp add: of_nat_diff)
  ultimately show False using assms unfolding terminator_at_iff by (metis option.inject)
qed

text \<open>Where \<^verbatim>\<open>nullptr\<close> is no address of the storage, a view of a terminated sequence is valid.\<close>

lemma terminator_at_valid:
  assumes "m nullptr = None" and "terminator_at m s k"
  shows "ptr s \<noteq> nullptr"
proof
  assume "ptr s = nullptr"
  then have "m (ptr s + of_nat 0) = None" using assms(1) by simp
  then show False
    using assms(2) unfolding terminator_at_iff by (cases k) auto
qed

lemma strlen_loop_terminator_at:
  "terminator_at (mem f) (cur f) k \<Longrightarrow>
   strlen_loop f = Some (Inr (f\<lparr>cur := (advance ^^ k) (cur f)\<rparr>))"
proof (induction k arbitrary: f)
  case 0
  then show ?case by (simp add: is_terminator_def strlen_loop_stop)
next
  case (Suc k)
  then obtain c where c: "deref (mem f) (cur f) = Inr c" "c \<noteq> 0"
    and t: "terminator_at (mem f) (advance (cur f)) k"
    by (auto split: sum.splits)
  let ?g = "f\<lparr>cur := advance (cur f)\<rparr>"
  have "strlen_loop f = strlen_loop ?g" using c by (rule strlen_loop_step)
  also have "\<dots> = Some (Inr (?g\<lparr>cur := (advance ^^ k) (cur ?g)\<rparr>))"
    using t by (intro Suc.IH) simp
  finally show ?case by (simp add: funpow_swap1)
qed

lemma strlen_terminator_at:
  assumes "terminator_at m s k"
  shows "strlen m s = Some (Inr (of_nat k))"
proof -
  have "strlen_run m s = Some (Inr \<lparr>mem = m, str = s, cur = (advance ^^ k) s\<rparr>)"
    using strlen_loop_terminator_at [of "\<lparr>mem = m, str = s, cur = s\<rparr>" k] assms
    by (simp add: strlen_run_def)
  then show ?thesis by (simp add: strlen_def ptr_funpow_advance)
qed

text \<open>Fewer than \<open>k\<close> increments do not reach a first terminator \<open>k\<close> positions away.\<close>

lemma strlen_loop_n_exact:
  "terminator_at (mem f) (cur f) k \<Longrightarrow> j < k \<Longrightarrow> strlen_loop_n j f = None"
proof (induction k arbitrary: f j)
  case 0
  then show ?case by simp
next
  case (Suc k)
  then obtain c where c: "deref (mem f) (cur f) = Inr c" "c \<noteq> 0"
    and t: "terminator_at (mem f) (advance (cur f)) k"
    by (auto split: sum.splits)
  show ?case
  proof (cases j)
    case 0
    then show ?thesis using c by simp
  next
    case (Suc j')
    then have "j' < k" using Suc.prems(2) by simp
    then have "strlen_loop_n j' (f\<lparr>cur := advance (cur f)\<rparr>) = None"
      using t by (intro Suc.IH) simp_all
    then show ?thesis using c Suc by simp
  qed
qed

lemma strlen_loop_n_terminates:
  "mem f (ptr (cur f) + of_nat k) = Some 0 \<Longrightarrow> \<exists>r. strlen_loop_n k f = Some r"
proof (induction k arbitrary: f)
  case 0
  then have "deref (mem f) (cur f) = Inr 0" by (simp add: deref_def)
  then show ?case by simp
next
  case (Suc k)
  let ?g = "f\<lparr>cur := advance (cur f)\<rparr>"
  have "mem ?g (ptr (cur ?g) + of_nat k) = Some 0"
    using Suc.prems by (simp add: ptr_advance add.assoc)
  then obtain r where "strlen_loop_n k ?g = Some r" using Suc.IH by blast
  then show ?case by (cases "deref (mem f) (cur f)") auto
qed

subsection \<open>Recurrence\<close>

lemma strlen_advance:
  assumes "deref m s = Inr c" and "c \<noteq> 0"
  shows "strlen m s = map_option (map_sum (\<lambda>e. e) (\<lambda>n. 1 + n)) (strlen m (advance s))"
proof -
  let ?F = "\<lparr>mem = m, str = advance s, cur = advance s\<rparr>"
  have "strlen_run m s = strlen_loop (\<lparr>mem = m, str = s, cur = s\<rparr>\<lparr>cur := advance s\<rparr>)"
    unfolding strlen_run_def using strlen_loop_step [of "\<lparr>mem = m, str = s, cur = s\<rparr>" c] assms
    by simp
  also have "\<dots> = strlen_loop (?F\<lparr>str := s\<rparr>)" by simp
  also have "\<dots> = map_option (map_sum (\<lambda>e. e) (\<lambda>g. g\<lparr>str := s\<rparr>)) (strlen_run m (advance s))"
    unfolding strlen_run_def by (rule strlen_loop_str)
  finally have run: "strlen_run m s =
    map_option (map_sum (\<lambda>e. e) (\<lambda>g. g\<lparr>str := s\<rparr>)) (strlen_run m (advance s))" .
  show ?thesis
  proof (cases "strlen_run m (advance s)")
    case None
    then show ?thesis using run by (simp add: strlen_def)
  next
    case (Some r)
    show ?thesis
    proof (cases r)
      case (Inl e)
      then show ?thesis using run Some by (simp add: strlen_def)
    next
      case (Inr g)
      then have "str g = advance s"
        using Some strlen_loop_frame [of ?F g] by (simp add: strlen_run_def)
      then show ?thesis using run Some Inr by (simp add: strlen_def ptr_advance)
    qed
  qed
qed

lemma strlen_zero_iff: "strlen m s = Some (Inr 0) \<longleftrightarrow> is_terminator m s"
proof
  assume "is_terminator m s"
  then have "terminator_at m s 0" by simp
  then show "strlen m s = Some (Inr 0)" using strlen_terminator_at by fastforce
next
  assume z: "strlen m s = Some (Inr 0)"
  then obtain g where g: "strlen_run m s = Some (Inr g)" and d: "ptr (cur g) - ptr (str g) = 0"
    by (auto simp: strlen_def split: option.splits sum.splits)
  from g have "mem g = m" "str g = s" "deref (mem g) (cur g) = Inr 0"
    using strlen_loop_frame [of "\<lparr>mem = m, str = s, cur = s\<rparr>" g] by (auto simp: strlen_run_def)
  moreover from d have "ptr (cur g) = ptr (str g)" by simp
  ultimately show "is_terminator m s" by (simp add: is_terminator_def deref_Inr_iff)
qed

section \<open>The length of a terminated sequence\<close>

text \<open>
  C1: for every valid view of a null-terminated character sequence, \<open>strlen\<close> returns
  the number of advance operations needed, from the view's initial position, to reach the
  first position whose character is the terminator: the count of characters before the
  first terminator. The count fits a \<^verbatim>\<open>size_t\<close>. Nothing is assumed of the pointer
  beyond the sequence it refers to, so the statement covers in particular every view
  that the constructor accepts.
\<close>

theorem strlen_counts_advances:
  assumes "terminator_at m s k"
  shows "strlen m s = Some (Inr (of_nat k)) \<and> unat (of_nat k :: size_t) = k"
proof
  show "strlen m s = Some (Inr (of_nat k))" using assms by (rule strlen_terminator_at)
  have "k < 2 ^ 64" using assms by (rule terminator_at_bound)
  then show "unat (of_nat k :: size_t) = k" by (simp add: unat_of_nat)
qed

theorem strlen_counts_advances_witness:
  "strlen [4096 \<mapsto> 97, 4097 \<mapsto> 98, 4098 \<mapsto> 99, 4099 \<mapsto> 0] \<lparr>ptr = 4096\<rparr> = Some (Inr 3)"
  using strlen_counts_advances [of "[4096 \<mapsto> 97, 4097 \<mapsto> 98, 4098 \<mapsto> 99, 4099 \<mapsto> 0]" "\<lparr>ptr = 4096\<rparr>" 3]
  by (simp add: numeral_3_eq_3 is_terminator_def deref_def advance_def)

text \<open>
  C4: when the storage holds further bytes after an embedded terminator, as in the three
  stored bytes \<^verbatim>\<open>'a'\<close>, 0, \<^verbatim>\<open>'b'\<close>, the length is 1. The storage is arbitrary past the
  terminator, and the result is the same when every other address is unreadable: the
  scan stops at the first terminator and reads no position past it.
\<close>

theorem strlen_embedded_terminator:
  assumes "m p = Some c" and "c \<noteq> 0" and "m (p + 1) = Some 0"
  shows "strlen m \<lparr>ptr = p\<rparr> = Some (Inr 1) \<and> strlen (m |` {p, p + 1}) \<lparr>ptr = p\<rparr> = Some (Inr 1)"
proof -
  have "terminator_at m' \<lparr>ptr = p\<rparr> (Suc 0)" if "m' p = Some c" and "m' (p + 1) = Some 0" for m'
    using that assms(2) by (simp add: deref_def advance_def is_terminator_def)
  then have "strlen m' \<lparr>ptr = p\<rparr> = Some (Inr 1)" if "m' p = Some c" and "m' (p + 1) = Some 0" for m'
    using that strlen_terminator_at [of m' "\<lparr>ptr = p\<rparr>" "Suc 0"] by simp
  then show ?thesis using assms by simp
qed

theorem strlen_embedded_terminator_witness:
  "strlen [4096 \<mapsto> 97, 4097 \<mapsto> 0, 4098 \<mapsto> 98] \<lparr>ptr = 4096\<rparr> = Some (Inr 1)
   \<and> strlen ([4096 \<mapsto> 97, 4097 \<mapsto> 0, 4098 \<mapsto> 98] |` {4096, 4096 + 1}) \<lparr>ptr = 4096\<rparr> = Some (Inr 1)"
  using strlen_embedded_terminator [of "[4096 \<mapsto> 97, 4097 \<mapsto> 0, 4098 \<mapsto> 98]" 4096 97]
  by simp

text \<open>
  C5: for a view of an empty sequence (the first character is already the terminator),
  construction succeeds and the length is 0.
\<close>

theorem strlen_empty:
  assumes "p \<noteq> nullptr" and "m p = Some 0"
  shows "String_Literal p = Inr \<lparr>ptr = p\<rparr> \<and> strlen m \<lparr>ptr = p\<rparr> = Some (Inr 0)"
proof
  show "String_Literal p = Inr \<lparr>ptr = p\<rparr>"
    using assms(1) by (simp add: String_Literal_def)
  have "deref m \<lparr>ptr = p\<rparr> = Inr 0"
    using assms(2) by (simp add: deref_def)
  then have "strlen_run m \<lparr>ptr = p\<rparr> = Some (Inr \<lparr>mem = m, str = \<lparr>ptr = p\<rparr>, cur = \<lparr>ptr = p\<rparr>\<rparr>)"
    by (simp add: strlen_run_def strlen_loop_stop)
  then show "strlen m \<lparr>ptr = p\<rparr> = Some (Inr 0)"
    by (simp add: strlen_def)
qed

theorem strlen_empty_witness:
  "String_Literal 4096 = Inr \<lparr>ptr = 4096\<rparr> \<and> strlen [4096 \<mapsto> 0] \<lparr>ptr = 4096\<rparr> = Some (Inr 0)"
  using strlen_empty [of 4096 "[4096 \<mapsto> 0]"] by (simp add: nullptr_def)

text \<open>
  C10: when the character under the view is not the terminator, the length is one more
  than the length from the advanced view (a scan that fails or does not return does so
  from both positions); and the length is 0 exactly when the character under the view is
  the terminator.
\<close>

theorem strlen_recurrence:
  "(\<forall>c. deref m s = Inr c \<longrightarrow> c \<noteq> 0 \<longrightarrow>
      strlen m s = map_option (map_sum (\<lambda>e. e) (\<lambda>n. 1 + n)) (strlen m (advance s)))
   \<and> (strlen m s = Some (Inr 0)) = is_terminator m s"
  using strlen_advance strlen_zero_iff by blast

theorem strlen_recurrence_witness:
  "strlen [4096 \<mapsto> 97, 4097 \<mapsto> 98, 4098 \<mapsto> 0] \<lparr>ptr = 4096\<rparr> =
     map_option (map_sum (\<lambda>e. e) (\<lambda>n. 1 + n)) (strlen [4096 \<mapsto> 97, 4097 \<mapsto> 98, 4098 \<mapsto> 0] \<lparr>ptr = 4097\<rparr>)
   \<and> (strlen [4096 \<mapsto> 97, 4097 \<mapsto> 98, 4098 \<mapsto> 0] \<lparr>ptr = 4098\<rparr> = Some (Inr 0))"
  using strlen_recurrence [of "[4096 \<mapsto> 97, 4097 \<mapsto> 98, 4098 \<mapsto> 0]" "\<lparr>ptr = 4096\<rparr>"]
    strlen_recurrence [of "[4096 \<mapsto> 97, 4097 \<mapsto> 98, 4098 \<mapsto> 0]" "\<lparr>ptr = 4098\<rparr>"]
  by (simp add: deref_def advance_def is_terminator_def)

section \<open>Termination\<close>

text \<open>
  C8: when the sequence under the view contains a terminator, \<open>k\<close> positions from the
  view, the scan returns, and it leaves the loop within \<open>k\<close> iterations: the budgeted loop
  with budget \<open>k\<close> ends with the very result of \<open>strlen_run\<close>. With \<open>k\<close> the position of
  the first terminator this is the bound of the claim.
\<close>

theorem strlen_terminates:
  assumes "m (ptr s + of_nat k) = Some 0"
  shows "\<exists>r. strlen_loop_n k \<lparr>mem = m, str = s, cur = s\<rparr> = Some r \<and> strlen_run m s = Some r
             \<and> (\<exists>v. strlen m s = Some v)"
proof -
  obtain r where r: "strlen_loop_n k \<lparr>mem = m, str = s, cur = s\<rparr> = Some r"
    using strlen_loop_n_terminates [of "\<lparr>mem = m, str = s, cur = s\<rparr>" k] assms by auto
  then have run: "strlen_run m s = Some r"
    unfolding strlen_run_def by (rule strlen_loop_n_sound)
  then have "\<exists>v. strlen m s = Some v"
    by (cases r) (simp_all add: strlen_def)
  with r run show ?thesis by blast
qed

theorem strlen_terminates_witness:
  "\<exists>r. strlen_loop_n 2 \<lparr>mem = [4096 \<mapsto> 97, 4097 \<mapsto> 98, 4098 \<mapsto> 0], str = \<lparr>ptr = 4096\<rparr>, cur = \<lparr>ptr = 4096\<rparr>\<rparr> = Some r
     \<and> strlen_run [4096 \<mapsto> 97, 4097 \<mapsto> 98, 4098 \<mapsto> 0] \<lparr>ptr = 4096\<rparr> = Some r
     \<and> (\<exists>v. strlen [4096 \<mapsto> 97, 4097 \<mapsto> 98, 4098 \<mapsto> 0] \<lparr>ptr = 4096\<rparr> = Some v)"
  using strlen_terminates [of "[4096 \<mapsto> 97, 4097 \<mapsto> 98, 4098 \<mapsto> 0]" "\<lparr>ptr = 4096\<rparr>" 2]
  by simp

section \<open>Frame\<close>

text \<open>
  C7: a call of \<open>strlen\<close> that returns leaves the character storage and the caller's
  view as they were: only the local cursor moved. So a second call, on the view or on a
  copy of it, in the state the first call left, returns the same value.
\<close>

theorem strlen_no_mutation:
  assumes "strlen_run m s = Some (Inr f)"
  shows "mem f = m \<and> str f = s \<and> strlen (mem f) (str f) = strlen m s \<and> strlen (mem f) s = strlen m s"
proof -
  have "mem f = mem \<lparr>mem = m, str = s, cur = s\<rparr> \<and> str f = str \<lparr>mem = m, str = s, cur = s\<rparr>"
    using assms strlen_loop_frame unfolding strlen_run_def by blast
  then show ?thesis by simp
qed

theorem strlen_no_mutation_witness:
  "strlen_run [4096 \<mapsto> 97, 4097 \<mapsto> 0] \<lparr>ptr = 4096\<rparr> =
     Some (Inr \<lparr>mem = [4096 \<mapsto> 97, 4097 \<mapsto> 0], str = \<lparr>ptr = 4096\<rparr>, cur = \<lparr>ptr = 4097\<rparr>\<rparr>)
   \<and> strlen (mem \<lparr>mem = [4096 \<mapsto> 97, 4097 \<mapsto> 0], str = \<lparr>ptr = 4096\<rparr>, cur = \<lparr>ptr = 4097\<rparr>\<rparr>)
         (str \<lparr>mem = [4096 \<mapsto> 97, 4097 \<mapsto> 0], str = \<lparr>ptr = 4096\<rparr>, cur = \<lparr>ptr = 4097\<rparr>\<rparr>)
       = strlen [4096 \<mapsto> 97, 4097 \<mapsto> 0] \<lparr>ptr = 4096\<rparr>"
proof -
  let ?m = "[4096 \<mapsto> 97, 4097 \<mapsto> 0] :: memory"
  have run: "strlen_run ?m \<lparr>ptr = 4096\<rparr> =
      Some (Inr \<lparr>mem = ?m, str = \<lparr>ptr = 4096\<rparr>, cur = \<lparr>ptr = 4097\<rparr>\<rparr>)"
    by (simp add: strlen_run_def strlen_loop.simps deref_def advance_def)
  show ?thesis using run strlen_no_mutation [OF run] by blast
qed

section \<open>Construction\<close>

text \<open>
  C2: constructing a view from a null reference raises \<open>NullReference\<close>, and the
  constructor raises it (or anything) exactly when the reference is null. The failure is
  the whole result, so no view exists when it is raised: in
  \<^verbatim>\<open>strlen(String_Literal { nullptr })\<close> it is the outcome for every storage, and
  \<open>strlen\<close> itself never raises it.
\<close>

theorem String_Literal_null:
  "(String_Literal p = Inl NullReference) = (p = nullptr)
   \<and> (\<exists>e. String_Literal p = Inl e) = (p = nullptr)
   \<and> (\<exists>s. String_Literal p = Inr s) = (p \<noteq> nullptr)
   \<and> strlen_of m nullptr = Some (Inl NullReference)
   \<and> strlen m s \<noteq> Some (Inl NullReference)"
  using strlen_not_NullReference [of m s] by (simp add: String_Literal_def strlen_of_def)

text \<open>
  C6: constructing a view from a non-null reference succeeds and wraps the reference.
  The constructor does not look at the storage, so nothing but the null check decides.
\<close>

theorem String_Literal_nonnull:
  assumes "p \<noteq> nullptr"
  shows "String_Literal p = Inr \<lparr>ptr = p\<rparr> \<and> strlen_of m p = strlen m \<lparr>ptr = p\<rparr>"
  using assms by (simp add: String_Literal_def strlen_of_def)

theorem String_Literal_nonnull_witness:
  "String_Literal 4096 = Inr \<lparr>ptr = 4096\<rparr> \<and> strlen_of Map.empty 4096 = strlen Map.empty \<lparr>ptr = 4096\<rparr>"
  using String_Literal_nonnull [of 4096 Map.empty] by (simp add: nullptr_def)

text \<open>
  C3: the failure of a null construction is the named condition \<open>NullReference\<close>. The
  caller's handler catches it and no other failure, and the harness's \<^verbatim>\<open>require\<close> never
  produces it: it is told apart from an abort and from every other failure.
\<close>

theorem NullReference_distinct:
  "String_Literal nullptr = Inl NullReference
   \<and> is_require_Error e = (e = NullReference)
   \<and> require b \<noteq> Inl NullReference"
  by (cases e) (simp_all add: String_Literal_def require_def)

text \<open>
  C9: the failure of a null construction is caught by the handler for
  \<^verbatim>\<open>solid::require::Error\<close>; catching that one type is enough for
  \<^verbatim>\<open>test_null_strlen\<close> to observe the failure and pass, whatever the storage.
\<close>

theorem test_null_strlen_passes:
  "(\<exists>e. String_Literal nullptr = Inl e \<and> is_require_Error e)
   \<and> test_null_strlen m = Some (Inr ())"
  by (simp add: String_Literal_def strlen_of_def test_null_strlen_def require_def)

end
